theory Spec2Isabelle
  imports Complex_Main
begin

section \<open>Python values\<close>

text \<open>
  The exceptions the modelled code can raise. \<open>SendError\<close> is the
  \<open>WebSocketDisconnect\<close> that \<open>WebSocket.send_text\<close> raises on a connection whose
  transport no longer accepts writes.
\<close>

datatype error =
  KeyError | TypeError | AttributeError | ValueError | UnicodeEncodeError | SendError

text \<open>
  A Python \<open>str\<close>: the UTF-8 bytes of a well-formed one, or, for a \<open>str\<close> that holds
  a lone surrogate (which an escape such as \<open>\ud800\<close> in a JSON body produces and UTF-8
  cannot encode), its code points.
\<close>

datatype pystr = Str string | Unencodable "nat list"

text \<open>
  A Python \<open>float\<close>: a finite one is kept as a rational (every finite double is one);
  \<open>json.loads\<close> also yields \<open>inf\<close>, \<open>-inf\<close> and \<open>nan\<close> (from \<open>1e999\<close>,
  \<open>Infinity\<close>, \<open>NaN\<close>).
\<close>

datatype pyfloat = Finite rat | PosInf | NegInf | NaN

text \<open>
  A parsed JSON value, as the request body reaches \<open>eventsub\<close>. An object is a
  \<open>dict\<close>, kept as an association list with distinct keys and read through \<open>map_of\<close>.
\<close>

datatype json =
    JNull
  | JBool bool
  | JInt int
  | JFloat pyfloat
  | JStr pystr
  | JArr "json list"
  | JObj "(pystr \<times> json) list"

type_synonym dict = "(pystr \<times> json) list"

text \<open>Truth value of a Python object in a condition (\<open>if x:\<close>).\<close>

fun truthy :: "json \<Rightarrow> bool" where
  "truthy JNull = False"
| "truthy (JBool b) = b"
| "truthy (JInt n) = (n \<noteq> 0)"
| "truthy (JFloat (Finite r)) = (r \<noteq> 0)"
| "truthy (JFloat f) = True"
| "truthy (JStr (Str s)) = (s \<noteq> [])"
| "truthy (JStr (Unencodable cs)) = (cs \<noteq> [])"
| "truthy (JArr xs) = (xs \<noteq> [])"
| "truthy (JObj kvs) = (kvs \<noteq> [])"

text \<open>
  \<open>v == n\<close> for an \<open>int\<close> \<open>n\<close>: numbers compare by value (\<open>555.0 == 555\<close>,
  \<open>True == 1\<close>), anything else is unequal.
\<close>

fun py_eq_int :: "json \<Rightarrow> int \<Rightarrow> bool" where
  "py_eq_int (JInt m) n = (m = n)"
| "py_eq_int (JBool b) n = ((if b then 1 else 0) = n)"
| "py_eq_int (JFloat (Finite r)) n = (r = of_int n)"
| "py_eq_int _ n = False"

text \<open>\<open>d.get(k)\<close> and \<open>d.get(k, default)\<close> on a dict.\<close>

definition dict_get_default :: "dict \<Rightarrow> string \<Rightarrow> json \<Rightarrow> json" where
  "dict_get_default d k dflt = (case map_of d (Str k) of None \<Rightarrow> dflt | Some v \<Rightarrow> v)"

definition dict_get :: "dict \<Rightarrow> string \<Rightarrow> json" where
  "dict_get d k = dict_get_default d k JNull"

text \<open>\<open>v.get(k)\<close> on an arbitrary value: only a dict has the method.\<close>

fun attr_get :: "json \<Rightarrow> string \<Rightarrow> error + json" where
  "attr_get (JObj d) k = Inr (dict_get d k)"
| "attr_get _ k = Inl AttributeError"

text \<open>\<open>v[k]\<close> with a string key: a missing key raises, a non-dict does not take it.\<close>

fun subscript :: "json \<Rightarrow> string \<Rightarrow> error + json" where
  "subscript (JObj d) k =
     (case map_of d (Str k) of None \<Rightarrow> Inl KeyError | Some v \<Rightarrow> Inr v)"
| "subscript _ k = Inl TypeError"

text \<open>
  \<open>JSONResponse(content)\<close> renders its content when it is built:
  \<open>json.dumps(content, ensure_ascii=False, allow_nan=False, ...).encode("utf-8")\<close>.
  \<open>dumps\<close> raises \<open>ValueError\<close> on a float that is not finite, wherever in the
  content it stands; after it, \<open>encode\<close> raises \<open>UnicodeEncodeError\<close> on a lone
  surrogate in a string or a key.
\<close>

fun not_finite :: "pyfloat \<Rightarrow> bool" where
  "not_finite (Finite r) = False"
| "not_finite f = True"

fun lone_surrogate :: "pystr \<Rightarrow> bool" where
  "lone_surrogate (Str s) = False"
| "lone_surrogate (Unencodable cs) = True"

fun out_of_range :: "json \<Rightarrow> bool" where
  "out_of_range (JFloat f) = not_finite f"
| "out_of_range (JArr xs) = list_ex out_of_range xs"
| "out_of_range (JObj kvs) = list_ex (\<lambda>kv. out_of_range (snd kv)) kvs"
| "out_of_range _ = False"

fun unencodable :: "json \<Rightarrow> bool" where
  "unencodable (JStr t) = lone_surrogate t"
| "unencodable (JArr xs) = list_ex unencodable xs"
| "unencodable (JObj kvs) = list_ex (\<lambda>kv. lone_surrogate (fst kv) \<or> unencodable (snd kv)) kvs"
| "unencodable _ = False"

definition JSONResponse :: "json \<Rightarrow> error + json" where
  "JSONResponse content =
     (if out_of_range content then Inl ValueError
      else if unencodable content then Inl UnicodeEncodeError
      else Inr content)"

text \<open>\<open>set.remove\<close>: raises \<open>KeyError\<close> when the element is absent.\<close>

definition set_remove :: "nat \<Rightarrow> nat set \<Rightarrow> error + nat set" where
  "set_remove x A = (if x \<in> A then Inr (A - {x}) else Inl KeyError)"


section \<open>The spin queue\<close>

text \<open>
  \<open>spin_queue = asyncio.Queue()\<close>: unbounded and FIFO. \<open>put\<close> appends and counts an
  unfinished task, \<open>get\<close> returns the oldest item or suspends the caller on an empty
  queue (\<open>None\<close> here), \<open>task_done\<close> raises \<open>ValueError\<close> when called more often than
  items were put.
\<close>

record queue =
  items :: "string list"
  unfinished :: nat

definition empty_queue :: queue where
  "empty_queue = \<lparr>items = [], unfinished = 0\<rparr>"

definition put :: "string \<Rightarrow> queue \<Rightarrow> queue" where
  "put x q = q\<lparr>items := items q @ [x], unfinished := unfinished q + 1\<rparr>"

definition get :: "queue \<Rightarrow> (string \<times> queue) option" where
  "get q = (case items q of [] \<Rightarrow> None | x # xs \<Rightarrow> Some (x, q\<lparr>items := xs\<rparr>))"

definition task_done :: "queue \<Rightarrow> error + queue" where
  "task_done q =
     (if unfinished q = 0 then Inl ValueError else Inr (q\<lparr>unfinished := unfinished q - 1\<rparr>))"


section \<open>Trigger sources\<close>

text \<open>
  \<open>eventsub\<close>, the handler of \<open>POST /eventsub\<close>. The first argument is the configured
  \<open>BIT_SPIN_AMOUNT\<close>; the body is a dict (the framework rejects any other body before
  the handler runs). The result is the exception the handler raises or its response
  together with the queue it leaves.
\<close>

definition status_ok :: json where
  "status_ok = JObj [(Str ''status'', JStr (Str ''ok''))]"

definition eventsub :: "int \<Rightarrow> dict \<Rightarrow> queue \<Rightarrow> error + (json \<times> queue)" where
  "eventsub BIT_SPIN_AMOUNT webhook_payload q =
     (if truthy (dict_get webhook_payload ''challenge'') then
        (case subscript (JObj webhook_payload) ''challenge'' of
           Inl e \<Rightarrow> Inl e
         | Inr c \<Rightarrow>
             (case JSONResponse (JObj [(Str ''challenge'', c)]) of
                Inl e \<Rightarrow> Inl e
              | Inr r \<Rightarrow> Inr (r, q)))
      else
        (case attr_get (dict_get_default webhook_payload ''subscription'' (JObj [])) ''type'' of
           Inl e \<Rightarrow> Inl e
         | Inr stype \<Rightarrow>
             if stype = JStr (Str ''channel.cheer'') then
               (case subscript (JObj webhook_payload) ''event'' of
                  Inl e \<Rightarrow> Inl e
                | Inr event \<Rightarrow>
                    (case subscript event ''bits'' of
                       Inl e \<Rightarrow> Inl e
                     | Inr bits \<Rightarrow>
                         (case subscript event ''user_name'' of
                            Inl e \<Rightarrow> Inl e
                          | Inr user \<Rightarrow>
                              if py_eq_int bits BIT_SPIN_AMOUNT
                              then Inr (status_ok, put ''spin'' q)
                              else Inr (status_ok, q))))
             else Inr (status_ok, q)))"

text \<open>
  The chat command as \<open>on_spin_message\<close> reads it: \<open>cmd.name\<close>, \<open>cmd.user.mod\<close>,
  \<open>cmd.user.name\<close> and \<open>cmd.room.name\<close>. \<open>cmd.room\<close> is \<open>None\<close> when the chat
  client does not know the room; \<open>room_name\<close> is \<open>None\<close> then, and reading
  \<open>cmd.room.name\<close> raises \<open>AttributeError\<close>. The condition is evaluated left to
  right and stops as soon as it is decided.
\<close>

record chat_command =
  cmd_name :: string
  user_mod :: bool
  user_name :: string
  room_name :: "string option"

definition on_spin_message :: "chat_command \<Rightarrow> queue \<Rightarrow> error + queue" where
  "on_spin_message cmd q =
     (if cmd_name cmd = ''spin'' then
        (if user_mod cmd then Inr (put ''spin'' q)
         else
           (case room_name cmd of
              None \<Rightarrow> Inl AttributeError
            | Some room \<Rightarrow> if user_name cmd = room then Inr (put ''spin'' q) else Inr q))
      else Inr q)"


section \<open>The system state\<close>

text \<open>
  One pass of the processor's loop body, as observed from outside: when the trigger was
  taken, which token \<open>get\<close> returned, and the connections a send was created for.
\<close>

record spin =
  started :: nat
  token :: string
  snapshot :: "nat set"

text \<open>
  Where the \<open>spin_processor\<close> task stands: suspended in \<open>spin_queue.get()\<close>, suspended
  in \<open>asyncio.sleep(9)\<close> with so many time units left, or terminated by an exception.
\<close>

datatype proc = Idle | Cooling nat | Crashed error

text \<open>
  The module's two globals, \<open>clients\<close> and \<open>spin_queue\<close>, and what surrounds them.
  A websocket object is a natural number (its identity); \<open>fresh\<close> is the next one to be
  created. \<open>tasks\<close> are the \<open>ws_spin\<close> handlers inside their receive loop. \<open>broken\<close>
  are the connections on which a send raises, and \<open>inbox ws\<close> the texts delivered to
  \<open>ws\<close> so far. \<open>now\<close> is the clock, \<open>spins\<close> the passes of the processor's loop.
\<close>

record system =
  clients :: "nat set"
  spin_queue :: queue
  processor :: proc
  tasks :: "nat set"
  fresh :: nat
  broken :: "nat set"
  inbox :: "nat \<Rightarrow> string list"
  now :: nat
  spins :: "spin list"

definition init :: system where
  "init = \<lparr>clients = {}, spin_queue = empty_queue, processor = Idle, tasks = {}, fresh = 0,
            broken = {}, inbox = (\<lambda>ws. []), now = 0, spins = []\<rparr>"


section \<open>Broadcast transport\<close>

text \<open>\<open>await ws.send_text(txt)\<close>.\<close>

definition send_text :: "nat \<Rightarrow> string \<Rightarrow> system \<Rightarrow> error + system" where
  "send_text ws txt s =
     (if ws \<in> broken s then Inl SendError
      else Inr (s\<lparr>inbox := (inbox s)(ws := inbox s ws @ [txt])\<rparr>))"

text \<open>
  \<open>await asyncio.gather(*[ws.send_text(txt) for ws in snap])\<close> with the default
  \<open>return_exceptions=False\<close>: every send runs, the sends that succeed deliver, and the
  first exception among them is raised to the caller. The sends are independent of one
  another, so the order of iteration over the set does not show.
\<close>

definition gather_send_text :: "nat set \<Rightarrow> string \<Rightarrow> system \<Rightarrow> error option \<times> system" where
  "gather_send_text snap txt s =
     (if snap \<inter> broken s = {} then None else Some SendError,
      s\<lparr>inbox := (\<lambda>ws. if ws \<in> snap \<and> ws \<notin> broken s then inbox s ws @ [txt] else inbox s ws)\<rparr>)"


section \<open>The spin processor\<close>

definition COOLDOWN :: nat where
  "COOLDOWN = 9"

text \<open>
  The loop body of \<open>spin_processor\<close> from the point where \<open>get\<close> has returned \<open>t\<close>, up
  to the suspension in \<open>asyncio.sleep(9)\<close>. Nothing catches an exception of the
  broadcast, so it ends the task.
\<close>

definition spin_once :: "string \<Rightarrow> system \<Rightarrow> system" where
  "spin_once t s =
     (let s1 = s\<lparr>spins := spins s @ [\<lparr>started = now s, token = t, snapshot = clients s\<rparr>]\<rparr>
      in if clients s \<noteq> {} then
           (case gather_send_text (clients s) ''spin'' s1 of
              (None, s2) \<Rightarrow> s2\<lparr>processor := Cooling COOLDOWN\<rparr>
            | (Some e, s2) \<Rightarrow> s2\<lparr>processor := Crashed e\<rparr>)
         else s1\<lparr>processor := Cooling COOLDOWN\<rparr>)"

text \<open>The top of the loop: \<open>await spin_queue.get()\<close>, then the body.\<close>

definition await_get :: "system \<Rightarrow> system" where
  "await_get s =
     (case get (spin_queue s) of
        None \<Rightarrow> s\<lparr>processor := Idle\<rparr>
      | Some (t, q) \<Rightarrow> spin_once t (s\<lparr>spin_queue := q\<rparr>))"

text \<open>
  \<open>spin_processor\<close>, run from where it is suspended to its next suspension: a task
  waiting in \<open>get\<close> proceeds when the queue has an item; a task in \<open>sleep\<close> proceeds
  when the time is up, calls \<open>task_done\<close> and goes round the loop; a terminated task
  does nothing.
\<close>

definition spin_processor :: "system \<Rightarrow> system" where
  "spin_processor s =
     (case processor s of
        Idle \<Rightarrow> await_get s
      | Cooling 0 \<Rightarrow>
          (case task_done (spin_queue s) of
             Inl e \<Rightarrow> s\<lparr>processor := Crashed e\<rparr>
           | Inr q \<Rightarrow> await_get (s\<lparr>spin_queue := q\<rparr>))
      | Cooling (Suc k) \<Rightarrow> s
      | Crashed e \<Rightarrow> s)"

text \<open>One time unit passes.\<close>

definition tick :: "system \<Rightarrow> system" where
  "tick s =
     s\<lparr>now := now s + 1,
       processor := (case processor s of Cooling (Suc k) \<Rightarrow> Cooling k | p \<Rightarrow> p)\<rparr>"


section \<open>The websocket endpoint\<close>

text \<open>
  \<open>ws_spin\<close> up to its first \<open>receive_text\<close>: a new websocket object is accepted and
  added to \<open>clients\<close>.
\<close>

definition ws_spin_accept :: "system \<Rightarrow> system" where
  "ws_spin_accept s =
     s\<lparr>clients := insert (fresh s) (clients s),
       tasks := insert (fresh s) (tasks s),
       fresh := fresh s + 1\<rparr>"

text \<open>
  The \<open>finally\<close> clause: \<open>clients.remove(ws)\<close>, after which the handler is over. The
  first component is the exception that leaves the handler, if any.
\<close>

definition ws_spin_finally :: "nat \<Rightarrow> system \<Rightarrow> error option \<times> system" where
  "ws_spin_finally ws s =
     (case set_remove ws (clients s) of
        Inl e \<Rightarrow> (Some e, s\<lparr>tasks := tasks s - {ws}\<rparr>)
      | Inr c \<Rightarrow> (None, s\<lparr>clients := c, tasks := tasks s - {ws}\<rparr>))"

text \<open>
  One round of the receive loop: \<open>receive_text\<close> returned \<open>msg\<close>, and \<open>"ack"\<close> is sent
  back. The \<open>WebSocketDisconnect\<close> of a failed send is caught by the \<open>except\<close> clause,
  and \<open>finally\<close> follows.
\<close>

definition ws_spin_receive :: "nat \<Rightarrow> string \<Rightarrow> system \<Rightarrow> error option \<times> system" where
  "ws_spin_receive ws msg s =
     (case send_text ws ''ack'' s of
        Inr s' \<Rightarrow> (None, s')
      | Inl e \<Rightarrow> ws_spin_finally ws s)"

text \<open>\<open>receive_text\<close> raised \<open>WebSocketDisconnect\<close>: caught, then \<open>finally\<close>.\<close>

definition ws_spin_disconnect :: "nat \<Rightarrow> system \<Rightarrow> error option \<times> system" where
  "ws_spin_disconnect ws s = ws_spin_finally ws s"


section \<open>Runs of the system\<close>

text \<open>
  What the event loop can do next: run a request handler to completion, resume a
  connection handler or the processor, let time pass; and what the outside can do to a
  connection. \<open>Receive\<close> and \<open>Disconnect\<close> resume the handler of a connection; where
  no such handler is in its receive loop there is nothing to resume, and the state stays
  as it is. \<open>Break\<close> makes every later send on a connection raise.
\<close>

datatype event =
    Eventsub dict
  | ChatCommand chat_command
  | Connect
  | Receive nat string
  | Disconnect nat
  | Break nat
  | Tick
  | Wake

fun step :: "int \<Rightarrow> event \<Rightarrow> system \<Rightarrow> system" where
  "step B (Eventsub p) s =
     (case eventsub B p (spin_queue s) of
        Inl e \<Rightarrow> s
      | Inr (r, q) \<Rightarrow> s\<lparr>spin_queue := q\<rparr>)"
| "step B (ChatCommand c) s =
     (case on_spin_message c (spin_queue s) of
        Inl e \<Rightarrow> s
      | Inr q \<Rightarrow> s\<lparr>spin_queue := q\<rparr>)"
| "step B Connect s = ws_spin_accept s"
| "step B (Receive ws msg) s = (if ws \<in> tasks s then snd (ws_spin_receive ws msg s) else s)"
| "step B (Disconnect ws) s = (if ws \<in> tasks s then snd (ws_spin_disconnect ws s) else s)"
| "step B (Break ws) s = s\<lparr>broken := insert ws (broken s)\<rparr>"
| "step B Tick s = tick s"
| "step B Wake s = spin_processor s"

fun run :: "int \<Rightarrow> event list \<Rightarrow> system \<Rightarrow> system" where
  "run B [] s = s"
| "run B (e # es) s = run B es (step B e s)"

text \<open>The tokens an event puts on the queue: its handler, run on the empty queue.\<close>

fun submitted :: "int \<Rightarrow> event \<Rightarrow> string list" where
  "submitted B (Eventsub p) =
     (case eventsub B p empty_queue of Inl e \<Rightarrow> [] | Inr (r, q) \<Rightarrow> items q)"
| "submitted B (ChatCommand c) =
     (case on_spin_message c empty_queue of Inl e \<Rightarrow> [] | Inr q \<Rightarrow> items q)"
| "submitted B _ = []"


section \<open>Invariants of the system\<close>

text \<open>
  The connection handlers inside their receive loop are exactly the registered
  connections, and every registered websocket object has been created.
\<close>

definition registry_ok :: "system \<Rightarrow> bool" where
  "registry_ok s \<longleftrightarrow> tasks s = clients s \<and> (\<forall>ws\<in>clients s. ws < fresh s)"

text \<open>
  The queue's count of unfinished tasks is the number of waiting items, plus the one the
  processor has taken and not yet marked done.
\<close>

fun in_flight :: "proc \<Rightarrow> nat" where
  "in_flight Idle = 0"
| "in_flight (Cooling k) = 1"
| "in_flight (Crashed e) = 1"

definition queue_ok :: "system \<Rightarrow> bool" where
  "queue_ok s \<longleftrightarrow>
     unfinished (spin_queue s) = length (items (spin_queue s)) + in_flight (processor s)"

text \<open>The tokens taken so far, oldest first, followed by the tokens still waiting.\<close>

definition history :: "system \<Rightarrow> string list" where
  "history s = map token (spins s) @ items (spin_queue s)"


text \<open>
  Consecutive spins start at least one cooldown apart; and while the processor has not
  crashed, the last spin started at least a cooldown before the moment its sleep ends.
\<close>

fun spaced :: "nat list \<Rightarrow> bool" where
  "spaced (x # y # r) = (x + COOLDOWN \<le> y \<and> spaced (y # r))"
| "spaced _ = True"

fun due :: "proc \<Rightarrow> nat" where
  "due (Cooling k) = k"
| "due _ = 0"

fun crashed :: "proc \<Rightarrow> bool" where
  "crashed (Crashed e) = True"
| "crashed _ = False"

definition timing_ok :: "system \<Rightarrow> bool" where
  "timing_ok s \<longleftrightarrow>
     spaced (map started (spins s))
     \<and> (spins s = [] \<or> crashed (processor s)
          \<or> started (last (spins s)) + COOLDOWN \<le> now s + due (processor s))"

text \<open>A websocket object that has not been created yet has been sent nothing.\<close>

definition inbox_ok :: "system \<Rightarrow> bool" where
  "inbox_ok s \<longleftrightarrow> registry_ok s \<and> (\<forall>ws. fresh s \<le> ws \<longrightarrow> inbox s ws = [])"

text \<open>
  A processor that will take a trigger at its next resumption, with only writable
  connections registered.
\<close>

definition ready :: "system \<Rightarrow> bool" where
  "ready s \<longleftrightarrow> queue_ok s \<and> (processor s = Idle \<or> processor s = Cooling 0)
     \<and> clients s \<inter> broken s = {}"

text \<open>
  The schedule that serves \<open>n\<close> triggers: the processor is resumed, then the cooldown
  passes, \<open>n\<close> times over.
\<close>

definition serve :: "nat \<Rightarrow> event list" where
  "serve n = concat (replicate n (Wake # replicate COOLDOWN Tick))"

text \<open>The spins a burst of triggers is expected to produce, one cooldown apart.\<close>

fun expected_spins :: "nat \<Rightarrow> nat set \<Rightarrow> string list \<Rightarrow> spin list" where
  "expected_spins t0 snap [] = []"
| "expected_spins t0 snap (t # ts) =
     \<lparr>started = t0, token = t, snapshot = snap\<rparr> # expected_spins (t0 + COOLDOWN) snap ts"


section \<open>Sample inputs\<close>

text \<open>A \<open>channel.cheer\<close> notification carrying the given bit amount.\<close>

definition cheer :: "json \<Rightarrow> dict" where
  "cheer bits =
     [(Str ''subscription'', JObj [(Str ''type'', JStr (Str ''channel.cheer''))]),
      (Str ''event'', JObj [(Str ''user_name'', JStr (Str ''bean'')), (Str ''bits'', bits)])]"

text \<open>\<open>!spin\<close> typed by a moderator, and by an ordinary viewer.\<close>

definition mod_spin :: chat_command where
  "mod_spin = \<lparr>cmd_name = ''spin'', user_mod = True, user_name = ''mod'',
       room_name = Some ''bean''\<rparr>"

definition viewer_spin :: chat_command where
  "viewer_spin =
     \<lparr>cmd_name = ''spin'', user_mod = False, user_name = ''viewer'',
       room_name = Some ''bean''\<rparr>"


text \<open>
  Two connections, the first of which stops taking writes; two \<open>!spin\<close> commands of a
  moderator; then the processor is resumed.
\<close>

definition stale_run :: "event list" where
  "stale_run = [Connect, Connect, Break 0, ChatCommand mod_spin, ChatCommand mod_spin, Wake]"

text \<open>
  One connection and two triggers; after the first spin a second connection joins in the
  middle of the cooldown, and the cooldown passes.
\<close>

definition before_spin :: system where
  "before_spin = run 555 [Connect, ChatCommand mod_spin, ChatCommand mod_spin] init"

definition before_next :: system where
  "before_next =
     run 555 [Tick, Tick, Tick, Tick, Tick, Tick, Tick]
       (step 555 Connect (run 555 [Tick, Tick] (spin_processor before_spin)))"


section \<open>Basic facts about the operations\<close>

lemma put_neq: "put x q \<noteq> q"
  by (auto simp: put_def dest: arg_cong [where f = unfinished])

lemmas proc_defs = spin_processor_def await_get_def spin_once_def gather_send_text_def get_def
  task_done_def Let_def
lemmas ws_defs = ws_spin_accept_def ws_spin_receive_def ws_spin_finally_def
  ws_spin_disconnect_def set_remove_def send_text_def

lemma eventsub_appends:
  "eventsub B p q = Inr (r, q') \<Longrightarrow> q' = q \<or> q' = put ''spin'' q"
  by (auto simp: eventsub_def split: if_splits sum.splits)

lemma eventsub_queue_indep:
  "eventsub B p q = Inr (r, q') \<Longrightarrow>
     \<exists>q0. eventsub B p empty_queue = Inr (r, q0) \<and> items q' = items q @ items q0
        \<and> unfinished q' = unfinished q + length (items q0)"
  by (auto simp: eventsub_def put_def empty_queue_def split: if_splits sum.splits)

lemma eventsub_error_indep:
  "eventsub B p q = Inl e \<Longrightarrow> eventsub B p empty_queue = Inl e"
  by (auto simp: eventsub_def split: if_splits sum.splits)

lemma on_spin_message_appends:
  "on_spin_message c q = Inr q' \<Longrightarrow>
     \<exists>q0. on_spin_message c empty_queue = Inr q0 \<and> items q' = items q @ items q0
        \<and> unfinished q' = unfinished q + length (items q0)"
  by (auto simp: on_spin_message_def put_def empty_queue_def split: if_splits option.splits)

lemma on_spin_message_error_indep:
  "on_spin_message c q = Inl e \<Longrightarrow> on_spin_message c empty_queue = Inl e"
  by (auto simp: on_spin_message_def split: if_splits option.splits)

lemma queue_collapse:
  "q\<lparr>items := xs, unfinished := u\<rparr> = \<lparr>items = xs, unfinished = u\<rparr>"
  "q\<lparr>unfinished := u, items := xs\<rparr> = \<lparr>items = xs, unfinished = u\<rparr>"
  by simp_all

lemma spin_once_simps [simp]:
  "clients (spin_once t s) = clients s"
  "tasks (spin_once t s) = tasks s"
  "fresh (spin_once t s) = fresh s"
  "broken (spin_once t s) = broken s"
  "now (spin_once t s) = now s"
  "spin_queue (spin_once t s) = spin_queue s"
  "spins (spin_once t s) = spins s @ [\<lparr>started = now s, token = t, snapshot = clients s\<rparr>]"
  "processor (spin_once t s) =
     (if clients s \<inter> broken s = {} then Cooling COOLDOWN else Crashed SendError)"
  "inbox (spin_once t s) ws =
     (if ws \<in> clients s \<and> ws \<notin> broken s then inbox s ws @ [''spin''] else inbox s ws)"
  by (auto simp: spin_once_def gather_send_text_def Let_def)

lemma await_get_Nil:
  "items (spin_queue s) = [] \<Longrightarrow> await_get s = s\<lparr>processor := Idle\<rparr>"
  by (simp add: await_get_def get_def)

lemma await_get_Cons:
  "items (spin_queue s) = t # ts \<Longrightarrow>
     await_get s = spin_once t (s\<lparr>spin_queue := (spin_queue s)\<lparr>items := ts\<rparr>\<rparr>)"
  by (simp add: await_get_def get_def)

lemma spin_processor_Idle:
  "processor s = Idle \<Longrightarrow> spin_processor s = await_get s"
  by (simp add: spin_processor_def)

lemma spin_processor_sleeping:
  "processor s = Cooling (Suc k) \<Longrightarrow> spin_processor s = s"
  by (simp add: spin_processor_def)

lemma spin_processor_Crashed:
  "processor s = Crashed e \<Longrightarrow> spin_processor s = s"
  by (simp add: spin_processor_def)

lemma spin_processor_woken:
  "processor s = Cooling 0 \<Longrightarrow> 0 < unfinished (spin_queue s) \<Longrightarrow>
     spin_processor s =
       await_get (s\<lparr>spin_queue := (spin_queue s)\<lparr>unfinished := unfinished (spin_queue s) - 1\<rparr>\<rparr>)"
  by (simp add: spin_processor_def task_done_def)

lemma spin_processor_woken_error:
  "processor s = Cooling 0 \<Longrightarrow> unfinished (spin_queue s) = 0 \<Longrightarrow>
     spin_processor s = s\<lparr>processor := Crashed ValueError\<rparr>"
  by (simp add: spin_processor_def task_done_def)

section \<open>The registry and its handlers\<close>

lemma spin_processor_registry [simp]:
  "clients (spin_processor s) = clients s" "tasks (spin_processor s) = tasks s"
  "fresh (spin_processor s) = fresh s" "broken (spin_processor s) = broken s"
  "now (spin_processor s) = now s"
  by (auto simp: proc_defs split: proc.splits nat.splits sum.splits list.splits)

lemma registry_ok_step: "registry_ok s \<Longrightarrow> registry_ok (step B e s)"
  by (cases e)
     (auto simp: registry_ok_def ws_defs tick_def split: sum.splits prod.splits if_splits)

lemma registry_ok_run: "registry_ok s \<Longrightarrow> registry_ok (run B es s)"
  by (induction es arbitrary: s) (simp_all add: registry_ok_step)

lemma registry_ok_init: "registry_ok init"
  by (simp add: registry_ok_def init_def)

section \<open>Queue accounting\<close>

lemma queue_ok_eventsub: "queue_ok s \<Longrightarrow> queue_ok (step B (Eventsub p) s)"
proof (cases "eventsub B p (spin_queue s)")
  case (Inl e)
  assume "queue_ok s"
  then show ?thesis using Inl by simp
next
  case (Inr rq)
  assume ok: "queue_ok s"
  obtain r q' where rq: "rq = (r, q')" by (cases rq)
  from eventsub_queue_indep [OF Inr [unfolded rq]]
  have "unfinished q' + length (items (spin_queue s)) = unfinished (spin_queue s) + length (items q')"
    by auto
  then show ?thesis using ok Inr rq by (simp add: queue_ok_def)
qed

lemma queue_ok_chat: "queue_ok s \<Longrightarrow> queue_ok (step B (ChatCommand c) s)"
proof (cases "on_spin_message c (spin_queue s)")
  case (Inl e)
  assume "queue_ok s"
  then show ?thesis using Inl by simp
next
  case (Inr q')
  assume ok: "queue_ok s"
  from on_spin_message_appends [OF Inr]
  have "unfinished q' + length (items (spin_queue s)) = unfinished (spin_queue s) + length (items q')"
    by auto
  then show ?thesis using ok Inr by (simp add: queue_ok_def)
qed

lemma queue_ok_await_get:
  assumes "unfinished (spin_queue s) = length (items (spin_queue s))"
  shows "queue_ok (await_get s)"
proof (cases "items (spin_queue s)")
  case Nil
  then show ?thesis using assms by (simp add: await_get_Nil queue_ok_def)
next
  case (Cons t ts)
  then show ?thesis using assms by (simp add: await_get_Cons queue_ok_def)
qed

lemma queue_ok_wake: "queue_ok s \<Longrightarrow> queue_ok (step B Wake s)"
proof (cases "processor s")
  case Idle
  assume "queue_ok s"
  with Idle have "unfinished (spin_queue s) = length (items (spin_queue s))"
    by (simp add: queue_ok_def)
  then show ?thesis using Idle by (simp add: spin_processor_Idle queue_ok_await_get)
next
  case (Cooling k)
  assume ok: "queue_ok s"
  show ?thesis
  proof (cases k)
    case 0
    with Cooling ok have pos: "0 < unfinished (spin_queue s)" by (simp add: queue_ok_def)
    from Cooling ok have "unfinished (spin_queue s) = length (items (spin_queue s)) + 1"
      by (simp add: queue_ok_def)
    then show ?thesis using Cooling 0 pos
      by (simp add: spin_processor_woken queue_ok_await_get)
  next
    case (Suc j)
    then show ?thesis using ok Cooling by (simp add: spin_processor_sleeping)
  qed
next
  case (Crashed e)
  assume "queue_ok s"
  then show ?thesis using Crashed by (simp add: spin_processor_Crashed)
qed

lemma queue_ok_tick: "queue_ok s \<Longrightarrow> queue_ok (step B Tick s)"
  by (cases "processor s") (auto simp: queue_ok_def tick_def split: nat.splits)

lemma ws_spin_receive_simps [simp]:
  "spin_queue (snd (ws_spin_receive ws msg s)) = spin_queue s"
  "processor (snd (ws_spin_receive ws msg s)) = processor s"
  "spins (snd (ws_spin_receive ws msg s)) = spins s"
  "now (snd (ws_spin_receive ws msg s)) = now s"
  "broken (snd (ws_spin_receive ws msg s)) = broken s"
  "fresh (snd (ws_spin_receive ws msg s)) = fresh s"
  by (auto simp: ws_defs split: sum.splits prod.splits if_splits)

lemma ws_spin_finally_simps [simp]:
  "spin_queue (snd (ws_spin_finally ws s)) = spin_queue s"
  "processor (snd (ws_spin_finally ws s)) = processor s"
  "spins (snd (ws_spin_finally ws s)) = spins s"
  "now (snd (ws_spin_finally ws s)) = now s"
  "broken (snd (ws_spin_finally ws s)) = broken s"
  "fresh (snd (ws_spin_finally ws s)) = fresh s"
  "inbox (snd (ws_spin_finally ws s)) = inbox s"
  by (auto simp: ws_defs split: sum.splits prod.splits if_splits)

lemma queue_ok_step: "queue_ok s \<Longrightarrow> queue_ok (step B e s)"
proof (cases e)
  case (Eventsub p) assume "queue_ok s"
  then show ?thesis unfolding Eventsub by (rule queue_ok_eventsub)
next
  case (ChatCommand c) assume "queue_ok s"
  then show ?thesis unfolding ChatCommand by (rule queue_ok_chat)
next
  case Wake assume "queue_ok s"
  then show ?thesis unfolding Wake by (rule queue_ok_wake)
next
  case Tick assume "queue_ok s"
  then show ?thesis unfolding Tick by (rule queue_ok_tick)
next
  case Connect assume "queue_ok s"
  then show ?thesis using Connect by (simp add: queue_ok_def ws_spin_accept_def)
next
  case (Receive ws msg) assume "queue_ok s"
  then show ?thesis using Receive by (simp add: queue_ok_def)
next
  case (Disconnect ws) assume "queue_ok s"
  then show ?thesis using Disconnect by (simp add: queue_ok_def ws_spin_disconnect_def)
next
  case (Break ws) assume "queue_ok s"
  then show ?thesis using Break by (simp add: queue_ok_def)
qed

lemma queue_ok_run: "queue_ok s \<Longrightarrow> queue_ok (run B es s)"
  by (induction es arbitrary: s) (simp_all add: queue_ok_step)

section \<open>Order of service\<close>

lemma history_await_get: "history (await_get s) = history s"
  by (cases "items (spin_queue s)") (simp_all add: await_get_Nil await_get_Cons history_def)

lemma history_spin_processor: "history (spin_processor s) = history s"
proof (cases "processor s")
  case Idle
  then show ?thesis by (simp add: spin_processor_Idle history_await_get)
next
  case (Cooling k)
  show ?thesis
  proof (cases "k = 0 \<and> 0 < unfinished (spin_queue s)")
    case True
    then show ?thesis using Cooling
      by (simp add: spin_processor_woken history_await_get) (simp add: history_def)
  next
    case False
    then show ?thesis using Cooling
      by (cases k) (simp_all add: spin_processor_woken_error spin_processor_sleeping history_def)
  qed
next
  case (Crashed e)
  then show ?thesis by (simp add: spin_processor_Crashed)
qed

lemma history_step: "history (step B e s) = history s @ submitted B e"
proof (cases e)
  case (Eventsub p)
  show ?thesis
  proof (cases "eventsub B p (spin_queue s)")
    case (Inl err)
    then show ?thesis using Eventsub eventsub_error_indep [OF Inl] by simp
  next
    case (Inr rq)
    obtain r q' where rq: "rq = (r, q')" by (cases rq)
    from eventsub_queue_indep [OF Inr [unfolded rq]] show ?thesis
      using Eventsub Inr rq by (auto simp: history_def)
  qed
next
  case (ChatCommand c)
  show ?thesis
  proof (cases "on_spin_message c (spin_queue s)")
    case (Inl err)
    then show ?thesis using ChatCommand on_spin_message_error_indep [OF Inl] by simp
  next
    case (Inr q')
    from on_spin_message_appends [OF Inr] show ?thesis
      using ChatCommand Inr by (auto simp: history_def)
  qed
next
  case Wake
  then show ?thesis by (simp add: history_spin_processor)
next
  case Tick
  then show ?thesis by (simp add: history_def tick_def)
next
  case Connect
  then show ?thesis by (simp add: history_def ws_spin_accept_def)
next
  case (Receive ws msg)
  then show ?thesis by (simp add: history_def)
next
  case (Disconnect ws)
  then show ?thesis by (simp add: history_def ws_spin_disconnect_def)
next
  case (Break ws)
  then show ?thesis by (simp add: history_def)
qed

lemma history_run: "history (run B es s) = history s @ concat (map (submitted B) es)"
  by (induction es arbitrary: s) (simp_all add: history_step)

lemma submitted_spin: "set (submitted B e) \<subseteq> {''spin''}"
proof (cases e)
  case (Eventsub p)
  show ?thesis
  proof (cases "eventsub B p empty_queue")
    case (Inl err)
    then show ?thesis using Eventsub by simp
  next
    case (Inr rq)
    obtain r q' where rq: "rq = (r, q')" by (cases rq)
    from eventsub_appends [OF Inr [unfolded rq]] show ?thesis
      using Eventsub Inr rq by (auto simp: put_def empty_queue_def)
  qed
next
  case (ChatCommand c)
  then show ?thesis
    by (simp add: on_spin_message_def put_def empty_queue_def split: option.splits)
qed simp_all

lemma history_init: "history init = []"
  by (simp add: history_def init_def empty_queue_def)

lemma all_same_replicate: "set xs \<subseteq> {a} \<Longrightarrow> xs = replicate (length xs) a"
  by (induction xs) auto

lemma history_all_spin: "set (history (run B es init)) \<subseteq> {''spin''}"
  using submitted_spin by (auto simp: history_run history_init)

text \<open>No step puts anything but \<open>"spin"\<close> on the queue.\<close>

lemma tokens_preserved_step:
  "set (history s) \<subseteq> {''spin''} \<Longrightarrow> set (history (step B e s)) \<subseteq> {''spin''}"
  using submitted_spin [of B e] by (simp add: history_step)

section \<open>The webhook handler\<close>

lemma truthy_get_present:
  "truthy (dict_get p k) \<Longrightarrow> map_of p (Str k) = Some (dict_get p k)"
  by (cases "map_of p (Str k)") (simp_all add: dict_get_def dict_get_default_def)

lemma items_snoc_neq: "items q' = items q @ [x] \<Longrightarrow> q' \<noteq> q"
  by auto

text \<open>
  C9, as the claim states it, fails: a challenge that is the float \<open>inf\<close> (the body
  \<open>{"challenge": 1e999}\<close>) is truthy, and building the response raises \<open>ValueError\<close>.
\<close>

theorem challenge_infinity_raises:
  "truthy (dict_get [(Str ''challenge'', JFloat PosInf)] ''challenge'')
   \<and> eventsub 555 [(Str ''challenge'', JFloat PosInf)] empty_queue = Inl ValueError"
  by (simp add: eventsub_def dict_get_def dict_get_default_def JSONResponse_def)

text \<open>
  C9, amended. A request whose payload has a truthy \<open>challenge\<close> never changes the
  system state, the queue included. When the challenge holds no float that is not finite
  and no lone surrogate, the handler answers with a JSON object whose \<open>challenge\<close> is the
  payload's; when it holds a float that is not finite the handler raises \<open>ValueError\<close>,
  and otherwise, when it holds a lone surrogate, \<open>UnicodeEncodeError\<close>.
\<close>

theorem eventsub_challenge_echo:
  assumes "truthy (dict_get p ''challenge'')"
  shows "(\<not> out_of_range (dict_get p ''challenge'') \<and> \<not> unencodable (dict_get p ''challenge'')
            \<longrightarrow> eventsub B p q = Inr (JObj [(Str ''challenge'', dict_get p ''challenge'')], q))
     \<and> (out_of_range (dict_get p ''challenge'') \<longrightarrow> eventsub B p q = Inl ValueError)
     \<and> (\<not> out_of_range (dict_get p ''challenge'') \<and> unencodable (dict_get p ''challenge'')
            \<longrightarrow> eventsub B p q = Inl UnicodeEncodeError)
     \<and> step B (Eventsub p) s = s"
proof -
  have e: "eventsub B p q' =
      (case JSONResponse (JObj [(Str ''challenge'', dict_get p ''challenge'')]) of
         Inl e \<Rightarrow> Inl e | Inr r \<Rightarrow> Inr (r, q'))" for q'
    using truthy_get_present [OF assms] assms by (simp add: eventsub_def)
  have "step B (Eventsub p) s = s"
    by (simp add: e [of "spin_queue s"] JSONResponse_def)
  then show ?thesis by (simp add: e [of q] JSONResponse_def)
qed

theorem eventsub_challenge_echo_witness:
  "truthy (dict_get [(Str ''challenge'', JStr (Str ''pogchamp-kappa-360noscope-vohiyo''))]
       ''challenge'')
   \<and> eventsub 555 [(Str ''challenge'', JStr (Str ''pogchamp-kappa-360noscope-vohiyo''))]
         empty_queue
       = Inr (JObj [(Str ''challenge'', JStr (Str ''pogchamp-kappa-360noscope-vohiyo''))],
              empty_queue)
   \<and> truthy (dict_get [(Str ''challenge'', JArr [JFloat NaN])] ''challenge'')
   \<and> eventsub 555 [(Str ''challenge'', JArr [JFloat NaN])] empty_queue = Inl ValueError
   \<and> truthy (dict_get [(Str ''challenge'', JStr (Unencodable [55296]))] ''challenge'')
   \<and> eventsub 555 [(Str ''challenge'', JStr (Unencodable [55296]))] empty_queue
       = Inl UnicodeEncodeError
   \<and> step 555 (Eventsub [(Str ''challenge'', JArr [JFloat NaN])]) init = init"
proof -
  let ?a = "[(Str ''challenge'', JStr (Str ''pogchamp-kappa-360noscope-vohiyo''))]"
  let ?b = "[(Str ''challenge'', JArr [JFloat NaN])]"
  let ?c = "[(Str ''challenge'', JStr (Unencodable [55296]))]"
  have ga: "dict_get ?a ''challenge'' = JStr (Str ''pogchamp-kappa-360noscope-vohiyo'')"
    and gb: "dict_get ?b ''challenge'' = JArr [JFloat NaN]"
    and gc: "dict_get ?c ''challenge'' = JStr (Unencodable [55296])"
    by (simp_all add: dict_get_def dict_get_default_def)
  have ta: "truthy (dict_get ?a ''challenge'')" and tb: "truthy (dict_get ?b ''challenge'')"
    and tc: "truthy (dict_get ?c ''challenge'')"
    by (simp_all add: ga gb gc)
  show ?thesis
    using ta tb tc
      eventsub_challenge_echo [OF ta, where B = 555 and q = empty_queue and s = init]
      eventsub_challenge_echo [OF tb, where B = 555 and q = empty_queue and s = init]
      eventsub_challenge_echo [OF tc, where B = 555 and q = empty_queue and s = init]
    by (simp add: ga gb gc)
qed

text \<open>
  C4. A \<open>channel.cheer\<close> notification (a payload without a truthy \<open>challenge\<close>, whose
  subscription type is \<open>channel.cheer\<close> and whose event carries \<open>bits\<close> and
  \<open>user_name\<close>) is answered with \<open>{"status": "ok"}\<close>. When its bit amount equals
  \<open>BIT_SPIN_AMOUNT\<close> the queue it leaves is the old one with the item \<open>"spin"\<close> appended
  and one more unfinished task; with any other amount, a larger one included, it is the
  old queue. So \<open>"spin"\<close> is appended to the items if and only if the amounts are equal,
  which for an integer amount \<open>m\<close> means \<open>m = BIT_SPIN_AMOUNT\<close>.
\<close>

theorem eventsub_cheer_exact_amount:
  assumes "\<not> truthy (dict_get p ''challenge'')"
    and "map_of p (Str ''subscription'') = Some (JObj sub)"
    and "map_of sub (Str ''type'') = Some (JStr (Str ''channel.cheer''))"
    and "map_of p (Str ''event'') = Some (JObj ev)"
    and "map_of ev (Str ''bits'') = Some bits"
    and "map_of ev (Str ''user_name'') = Some user"
  shows "eventsub B p q =
           Inr (status_ok,
                if py_eq_int bits B
                then \<lparr>items = items q @ [''spin''], unfinished = unfinished q + 1\<rparr>
                else q)
     \<and> ((\<exists>r q'. eventsub B p q = Inr (r, q') \<and> items q' = items q @ [''spin''])
           \<longleftrightarrow> py_eq_int bits B)
     \<and> (bits = JInt m \<longrightarrow>
           ((\<exists>r q'. eventsub B p q = Inr (r, q') \<and> items q' = items q @ [''spin''])
             \<longleftrightarrow> m = B))"
proof -
  have e: "eventsub B p q =
           Inr (status_ok,
                if py_eq_int bits B
                then \<lparr>items = items q @ [''spin''], unfinished = unfinished q + 1\<rparr>
                else q)"
    using assms
    by (simp add: eventsub_def dict_get_def dict_get_default_def put_def queue_collapse)
  then have i: "(\<exists>r q'. eventsub B p q = Inr (r, q') \<and> items q' = items q @ [''spin''])
           \<longleftrightarrow> py_eq_int bits B"
    by auto
  from e i show ?thesis by auto
qed

theorem eventsub_cheer_exact_amount_witness:
  "eventsub 555 (cheer (JInt 555)) empty_queue
     = Inr (status_ok, \<lparr>items = [''spin''], unfinished = 1\<rparr>)
   \<and> eventsub 555 (cheer (JInt 1000)) empty_queue
     = Inr (status_ok, \<lparr>items = [], unfinished = 0\<rparr>)
   \<and> eventsub 555 (cheer (JInt 554)) empty_queue
     = Inr (status_ok, \<lparr>items = [], unfinished = 0\<rparr>)"
proof -
  have c: "\<not> truthy (dict_get (cheer b) ''challenge'')" for b
    by (simp add: cheer_def dict_get_def dict_get_default_def)
  have s: "map_of (cheer b) (Str ''subscription'')
             = Some (JObj [(Str ''type'', JStr (Str ''channel.cheer''))])" for b
    by (simp add: cheer_def)
  have t: "map_of [(Str ''type'', JStr (Str ''channel.cheer''))] (Str ''type'')
             = Some (JStr (Str ''channel.cheer''))"
    by simp
  have e: "map_of (cheer b) (Str ''event'')
             = Some (JObj [(Str ''user_name'', JStr (Str ''bean'')), (Str ''bits'', b)])" for b
    by (simp add: cheer_def)
  have b: "map_of [(Str ''user_name'', JStr (Str ''bean'')), (Str ''bits'', b)] (Str ''bits'')
             = Some b" for b
    by simp
  have u: "map_of [(Str ''user_name'', JStr (Str ''bean'')), (Str ''bits'', b)] (Str ''user_name'')
             = Some (JStr (Str ''bean''))" for b
    by simp
  note gen = eventsub_cheer_exact_amount [OF c s t e b u, where B = 555 and q = empty_queue]
  show ?thesis
    using gen [of "JInt 555"] gen [of "JInt 1000"] gen [of "JInt 554"]
    by (simp add: empty_queue_def)
qed

text \<open>
  For an arbitrary payload: the handler appends a trigger to the queue exactly when the
  payload has no truthy \<open>challenge\<close>, is a \<open>channel.cheer\<close> notification with
  \<open>bits\<close> and \<open>user_name\<close>, and the bits equal the threshold.
\<close>

lemma eventsub_enqueues_iff:
  "(\<exists>r q'. eventsub B p q = Inr (r, q') \<and> items q' = items q @ [''spin'']) \<longleftrightarrow>
     \<not> truthy (dict_get p ''challenge'')
     \<and> (\<exists>sub ev bits user.
           map_of p (Str ''subscription'') = Some (JObj sub)
           \<and> map_of sub (Str ''type'') = Some (JStr (Str ''channel.cheer''))
           \<and> map_of p (Str ''event'') = Some (JObj ev)
           \<and> map_of ev (Str ''bits'') = Some bits
           \<and> map_of ev (Str ''user_name'') = Some user
           \<and> py_eq_int bits B)"
  (is "?L \<longleftrightarrow> ?R")
proof
  assume ?R
  then show ?L
    by (auto simp: eventsub_def dict_get_def dict_get_default_def put_def)
next
  assume ?L
  then obtain r q' where r0: "eventsub B p q = Inr (r, q')"
    and it: "items q' = items q @ [''spin'']" by blast
  from it have "q' \<noteq> q" by (rule items_snoc_neq)
  with eventsub_appends [OF r0] have q': "q' = put ''spin'' q" by simp
  have ne: "put ''spin'' q \<noteq> q" by (rule put_neq)
  from r0 q' have r: "eventsub B p q = Inr (r, put ''spin'' q)" by simp
  from r ne have c: "\<not> truthy (dict_get p ''challenge'')"
    by (auto simp: eventsub_def split: if_splits sum.splits)
  from r ne c obtain sub where sub: "map_of p (Str ''subscription'') = Some (JObj sub)"
    and ty: "dict_get sub ''type'' = JStr (Str ''channel.cheer'')"
    by (cases "map_of p (Str ''subscription'')"; cases "the (map_of p (Str ''subscription''))")
       (auto simp: eventsub_def dict_get_def dict_get_default_def split: if_splits sum.splits)
  from ty have ty': "map_of sub (Str ''type'') = Some (JStr (Str ''channel.cheer''))"
    by (cases "map_of sub (Str ''type'')") (simp_all add: dict_get_def dict_get_default_def)
  from r ne c sub ty obtain e where e: "map_of p (Str ''event'') = Some e"
    by (cases "map_of p (Str ''event'')")
       (auto simp: eventsub_def dict_get_default_def split: if_splits sum.splits)
  from r ne c sub ty e obtain ev where ev: "e = JObj ev"
    by (cases e) (auto simp: eventsub_def dict_get_default_def split: if_splits sum.splits)
  from r ne c sub ty e ev obtain bits where bits: "map_of ev (Str ''bits'') = Some bits"
    by (cases "map_of ev (Str ''bits'')")
       (auto simp: eventsub_def dict_get_default_def split: if_splits sum.splits)
  from r ne c sub ty e ev bits obtain user where user: "map_of ev (Str ''user_name'') = Some user"
    by (cases "map_of ev (Str ''user_name'')")
       (auto simp: eventsub_def dict_get_default_def split: if_splits sum.splits)
  from r ne c sub ty e ev bits user have "py_eq_int bits B"
    by (auto simp: eventsub_def dict_get_default_def split: if_splits)
  with c sub ty' e ev bits user show ?R by blast
qed

section \<open>The chat command\<close>

text \<open>
  C5. A chat command appends the item \<open>"spin"\<close> to the queue if and only if it is the
  \<open>spin\<close> command and its issuer is a moderator or bears the name of the room (the
  broadcaster's). In that case the queue is the old one with \<open>"spin"\<close> appended and one
  more unfinished task, and nothing else changes; any other command leaves the whole
  system as it was.
\<close>

theorem chat_command_enqueues_iff:
  "(items (spin_queue (step B (ChatCommand c) s)) = items (spin_queue s) @ [''spin'']
      \<longleftrightarrow> cmd_name c = ''spin'' \<and> (user_mod c \<or> room_name c = Some (user_name c)))
   \<and> (cmd_name c = ''spin'' \<and> (user_mod c \<or> room_name c = Some (user_name c)) \<longrightarrow>
        step B (ChatCommand c) s =
          s\<lparr>spin_queue := \<lparr>items = items (spin_queue s) @ [''spin''],
                             unfinished = unfinished (spin_queue s) + 1\<rparr>\<rparr>)
   \<and> (\<not> (cmd_name c = ''spin'' \<and> (user_mod c \<or> room_name c = Some (user_name c)))
      \<longrightarrow> step B (ChatCommand c) s = s)"
  by (auto simp: on_spin_message_def put_def queue_collapse split: option.splits)

theorem chat_command_enqueues_iff_witness:
  "cmd_name mod_spin = ''spin''
   \<and> (user_mod mod_spin \<or> room_name mod_spin = Some (user_name mod_spin))
   \<and> spin_queue (step 555 (ChatCommand mod_spin) init)
       = \<lparr>items = [''spin''], unfinished = 1\<rparr>
   \<and> \<not> (cmd_name viewer_spin = ''spin''
          \<and> (user_mod viewer_spin \<or> room_name viewer_spin = Some (user_name viewer_spin)))
   \<and> step 555 (ChatCommand viewer_spin) init = init"
proof -
  have m: "cmd_name mod_spin = ''spin''
      \<and> (user_mod mod_spin \<or> room_name mod_spin = Some (user_name mod_spin))"
    by (simp add: mod_spin_def)
  have v: "\<not> (cmd_name viewer_spin = ''spin''
          \<and> (user_mod viewer_spin \<or> room_name viewer_spin = Some (user_name viewer_spin)))"
    by (simp add: viewer_spin_def)
  have i: "spin_queue init = \<lparr>items = [], unfinished = 0\<rparr>"
    by (simp add: init_def empty_queue_def)
  show ?thesis
    using chat_command_enqueues_iff [where B = 555 and c = mod_spin and s = init] m
      chat_command_enqueues_iff [where B = 555 and c = viewer_spin and s = init] v i
    by simp
qed

section \<open>Tokens\<close>

text \<open>
  C8. In every state the system reaches, every token waiting on the queue is the string
  \<open>"spin"\<close>, and so is every token \<open>get\<close> has returned to the processor.
\<close>

theorem every_token_is_spin:
  "items (spin_queue (run B es init))
     = replicate (length (items (spin_queue (run B es init)))) ''spin''
   \<and> map token (spins (run B es init)) = replicate (length (spins (run B es init))) ''spin''"
proof -
  let ?s = "run B es init"
  have "set (items (spin_queue ?s)) \<subseteq> {''spin''}" "set (map token (spins ?s)) \<subseteq> {''spin''}"
    using history_all_spin [of B es] by (auto simp: history_def)
  then show ?thesis by (metis all_same_replicate length_map)
qed

section \<open>Acknowledgements\<close>

text \<open>
  C10. A text received from a connected client (its handler is in the receive loop and
  its transport takes writes) is answered with \<open>"ack"\<close> on that same connection,
  whatever the text is, and nothing else in the system changes.
\<close>

theorem receive_replies_ack:
  assumes "ws \<in> tasks s" and "ws \<notin> broken s"
  shows "step B (Receive ws msg) s = s\<lparr>inbox := (inbox s)(ws := inbox s ws @ [''ack''])\<rparr>"
  using assms by (simp add: ws_spin_receive_def send_text_def)

theorem receive_replies_ack_witness:
  "0 \<in> tasks (run 555 [Connect] init) \<and> 0 \<notin> broken (run 555 [Connect] init)
   \<and> inbox (step 555 (Receive 0 ''hello'') (run 555 [Connect] init)) 0 = [''ack'']
   \<and> clients (step 555 (Receive 0 ''hello'') (run 555 [Connect] init)) = {0}
   \<and> spin_queue (step 555 (Receive 0 ''hello'') (run 555 [Connect] init)) = empty_queue"
proof -
  have t: "0 \<in> tasks (run 555 [Connect] init)" and b: "0 \<notin> broken (run 555 [Connect] init)"
    by (simp_all add: ws_spin_accept_def init_def)
  show ?thesis
    using t b receive_replies_ack [OF t b, where B = 555 and msg = "''hello''"]
    by (simp add: ws_spin_accept_def init_def)
qed

section \<open>Deregistration\<close>

text \<open>
  C3, as the claim states it, fails: a second removal of the same websocket raises
  \<open>KeyError\<close>.
\<close>

theorem second_removal_raises:
  "fst (ws_spin_finally 0 (snd (ws_spin_finally 0 (run 555 [Connect] init)))) = Some KeyError"
  by (simp add: ws_spin_finally_def set_remove_def ws_spin_accept_def init_def)

text \<open>
  C3, amended. Removing from the registry a websocket that is registered raises nothing
  and leaves the registry without it; removing one that is absent raises \<open>KeyError\<close>
  and leaves the membership unchanged. In every state the system reaches, a handler in
  its receive loop is registered, so the one removal it performs on its way out raises
  nothing, and the handler is over afterwards.
\<close>

theorem deregistration_once_per_handler:
  "(ws \<in> clients s \<longrightarrow>
      ws_spin_finally ws s = (None, s\<lparr>clients := clients s - {ws}, tasks := tasks s - {ws}\<rparr>))
   \<and> (ws \<notin> clients s \<longrightarrow>
      fst (ws_spin_finally ws s) = Some KeyError \<and> clients (snd (ws_spin_finally ws s)) = clients s)
   \<and> (ws \<in> tasks (run B es init) \<longrightarrow>
      fst (ws_spin_finally ws (run B es init)) = None
      \<and> ws \<notin> tasks (snd (ws_spin_finally ws (run B es init)))
      \<and> ws \<notin> clients (snd (ws_spin_finally ws (run B es init))))"
proof -
  have "registry_ok (run B es init)"
    by (rule registry_ok_run [OF registry_ok_init])
  then have "tasks (run B es init) = clients (run B es init)"
    by (simp add: registry_ok_def)
  then show ?thesis
    by (simp add: ws_spin_finally_def set_remove_def)
qed

theorem deregistration_once_per_handler_witness:
  "0 \<in> clients (run 555 [Connect] init)
   \<and> 0 \<in> tasks (run 555 [Connect] init)
   \<and> fst (ws_spin_finally 0 (run 555 [Connect] init)) = None
   \<and> clients (snd (ws_spin_finally 0 (run 555 [Connect] init))) = {}
   \<and> 0 \<notin> clients init
   \<and> fst (ws_spin_finally 0 init) = Some KeyError"
proof -
  have c: "0 \<in> clients (run 555 [Connect] init)" and t: "0 \<in> tasks (run 555 [Connect] init)"
    by (simp_all add: ws_spin_accept_def init_def)
  have n: "0 \<notin> clients init" by (simp add: init_def)
  show ?thesis
    using c t n deregistration_once_per_handler
        [where ws = 0 and s = "run 555 [Connect] init" and B = 555 and es = "[Connect]"]
      deregistration_once_per_handler [where ws = 0 and s = init and B = 555 and es = "[]"]
    by (simp add: ws_spin_accept_def init_def)
qed


section \<open>Timing\<close>

lemma spaced_snoc:
  "spaced (xs @ [y]) \<longleftrightarrow> spaced xs \<and> (xs = [] \<or> last xs + COOLDOWN \<le> y)"
  by (induction xs rule: spaced.induct) auto

lemma timing_ok_await_get:
  assumes "spaced (map started (spins s))"
    and "spins s = [] \<or> started (last (spins s)) + COOLDOWN \<le> now s"
  shows "timing_ok (await_get s)"
proof (cases "items (spin_queue s)")
  case Nil
  then show ?thesis using assms by (simp add: await_get_Nil timing_ok_def)
next
  case (Cons t ts)
  then show ?thesis using assms
    by (cases "spins s = []") (auto simp: await_get_Cons timing_ok_def spaced_snoc last_map)
qed

lemma timing_ok_wake: "timing_ok s \<Longrightarrow> timing_ok (step B Wake s)"
proof (cases "processor s")
  case Idle
  assume "timing_ok s"
  with Idle have "spaced (map started (spins s))"
    "spins s = [] \<or> started (last (spins s)) + COOLDOWN \<le> now s"
    by (simp_all add: timing_ok_def)
  then show ?thesis using Idle by (simp add: spin_processor_Idle timing_ok_await_get)
next
  case (Cooling k)
  assume ok: "timing_ok s"
  show ?thesis
  proof (cases k)
    case 0
    from ok Cooling 0 have a: "spaced (map started (spins s))"
      "spins s = [] \<or> started (last (spins s)) + COOLDOWN \<le> now s"
      by (simp_all add: timing_ok_def)
    show ?thesis
    proof (cases "unfinished (spin_queue s) = 0")
      case True
      then show ?thesis using Cooling 0 a
        by (simp add: spin_processor_woken_error timing_ok_def)
    next
      case False
      then have "0 < unfinished (spin_queue s)" by simp
      then show ?thesis using Cooling 0 a
        by (simp add: spin_processor_woken timing_ok_await_get)
    qed
  next
    case (Suc j)
    then show ?thesis using ok Cooling by (simp add: spin_processor_sleeping)
  qed
next
  case (Crashed e)
  assume "timing_ok s"
  then show ?thesis using Crashed by (simp add: spin_processor_Crashed)
qed

lemma timing_ok_tick: "timing_ok s \<Longrightarrow> timing_ok (step B Tick s)"
  by (cases "processor s") (auto simp: timing_ok_def tick_def split: nat.splits)

lemma timing_ok_producers:
  "timing_ok s \<Longrightarrow> timing_ok (s\<lparr>spin_queue := q\<rparr>)"
  by (simp add: timing_ok_def)

lemma timing_ok_step: "timing_ok s \<Longrightarrow> timing_ok (step B e s)"
proof (cases e)
  case (Eventsub p) assume "timing_ok s"
  then show ?thesis using Eventsub
    by (cases "eventsub B p (spin_queue s)") (auto simp: timing_ok_producers)
next
  case (ChatCommand c) assume "timing_ok s"
  then show ?thesis using ChatCommand
    by (cases "on_spin_message c (spin_queue s)") (auto simp: timing_ok_producers)
next
  case Wake assume "timing_ok s"
  then show ?thesis unfolding Wake by (rule timing_ok_wake)
next
  case Tick assume "timing_ok s"
  then show ?thesis unfolding Tick by (rule timing_ok_tick)
next
  case Connect assume "timing_ok s"
  then show ?thesis using Connect by (simp add: timing_ok_def ws_spin_accept_def)
next
  case (Receive ws msg) assume "timing_ok s"
  then show ?thesis using Receive by (simp add: timing_ok_def)
next
  case (Disconnect ws) assume "timing_ok s"
  then show ?thesis using Disconnect by (simp add: timing_ok_def ws_spin_disconnect_def)
next
  case (Break ws) assume "timing_ok s"
  then show ?thesis using Break by (simp add: timing_ok_def)
qed

lemma timing_ok_run: "timing_ok s \<Longrightarrow> timing_ok (run B es s)"
  by (induction es arbitrary: s) (simp_all add: timing_ok_step)

lemma timing_ok_init: "timing_ok init"
  by (simp add: timing_ok_def init_def)

lemma spins_spaced: "spaced (map started (spins (run B es init)))"
  using timing_ok_run [OF timing_ok_init] by (simp add: timing_ok_def)

lemma spaced_nth:
  "spaced xs \<Longrightarrow> Suc i < length xs \<Longrightarrow> xs ! i + COOLDOWN \<le> xs ! Suc i"
proof (induction xs arbitrary: i rule: spaced.induct)
  case (1 x y r)
  then show ?case by (cases i) auto
qed auto

text \<open>In every run, consecutive spins start at least one cooldown apart.\<close>

lemma consecutive_spins_apart:
  assumes "Suc i < length (spins (run B es init))"
  shows "started (spins (run B es init) ! i) + COOLDOWN
           \<le> started (spins (run B es init) ! Suc i)"
  using spaced_nth [OF spins_spaced [of B es], of i] assms by simp


section \<open>What a resumption of the processor does\<close>

lemma await_get_cases:
  "await_get s = s\<lparr>processor := Idle\<rparr>
   \<or> (\<exists>t q. await_get s = spin_once t (s\<lparr>spin_queue := q\<rparr>))"
  by (cases "items (spin_queue s)") (auto simp: await_get_Nil await_get_Cons)

lemma spin_processor_cases:
  "spin_processor s = s
   \<or> (\<exists>e. spin_processor s = s\<lparr>processor := Crashed e\<rparr>)
   \<or> (\<exists>q. spin_processor s = s\<lparr>spin_queue := q, processor := Idle\<rparr>)
   \<or> (\<exists>t q. spin_processor s = spin_once t (s\<lparr>spin_queue := q\<rparr>))"
proof (cases "processor s")
  case Idle
  then show ?thesis
    using await_get_cases [of s] by (cases "items (spin_queue s)")
      (auto simp: spin_processor_Idle await_get_Nil await_get_Cons)
next
  case (Cooling k)
  show ?thesis
  proof (cases k)
    case 0
    show ?thesis
    proof (cases "unfinished (spin_queue s) = 0")
      case True
      then show ?thesis using Cooling 0 by (auto simp: spin_processor_woken_error)
    next
      case False
      let ?s = "s\<lparr>spin_queue := (spin_queue s)\<lparr>unfinished := unfinished (spin_queue s) - 1\<rparr>\<rparr>"
      from False Cooling 0 have eq: "spin_processor s = await_get ?s"
        by (simp add: spin_processor_woken)
      show ?thesis
      proof (cases "items (spin_queue s)")
        case Nil
        then have "await_get ?s = ?s\<lparr>processor := Idle\<rparr>" by (simp add: await_get_Nil)
        then show ?thesis using eq by auto
      next
        case (Cons t ts)
        then have "await_get ?s = spin_once t (?s\<lparr>spin_queue := (spin_queue ?s)\<lparr>items := ts\<rparr>\<rparr>)"
          by (simp add: await_get_Cons)
        then have "\<exists>q. spin_processor s = spin_once t (s\<lparr>spin_queue := q\<rparr>)"
          using eq by auto
        then show ?thesis by blast
      qed
    qed
  next
    case (Suc j)
    then show ?thesis using Cooling by (simp add: spin_processor_sleeping)
  qed
next
  case (Crashed e)
  then show ?thesis by (simp add: spin_processor_Crashed)
qed

text \<open>A resumption of the processor either performs no spin and sends nothing, or
  performs one spin, on the registry as it is at that moment.\<close>

lemma spin_processor_effect:
  "(spins (spin_processor s) = spins s \<and> inbox (spin_processor s) = inbox s)
   \<or> (\<exists>t. spins (spin_processor s) = spins s @ [\<lparr>started = now s, token = t, snapshot = clients s\<rparr>]
          \<and> inbox (spin_processor s) =
              (\<lambda>ws. if ws \<in> clients s \<and> ws \<notin> broken s then inbox s ws @ [''spin'']
                    else inbox s ws))"
  using spin_processor_cases [of s] by (elim disjE exE) (auto simp: fun_eq_iff)

text \<open>
  The only exception that ever ends the processor is that of a send: \<open>task_done\<close> is
  never called once too often.
\<close>

lemma only_sends_fail_step:
  assumes "queue_ok s" and "processor s = Crashed e \<longrightarrow> e = SendError"
  shows "processor (step B ev s) = Crashed e \<longrightarrow> e = SendError"
proof (cases ev)
  case Wake
  show ?thesis
  proof (cases "processor s = Cooling 0")
    case True
    with assms(1) have "0 < unfinished (spin_queue s)" by (simp add: queue_ok_def)
    with True have "spin_processor s = s\<lparr>spin_queue := (spin_queue s)\<lparr>unfinished := unfinished (spin_queue s) - 1\<rparr>, processor := Idle\<rparr>
       \<or> (\<exists>t q. spin_processor s = spin_once t (s\<lparr>spin_queue := q\<rparr>))"
      by (cases "items (spin_queue s)")
        (auto simp: spin_processor_woken await_get_Nil await_get_Cons)
    then show ?thesis using Wake by (auto split: if_splits)
  next
    case False
    then have "spin_processor s = s \<or> spin_processor s = s\<lparr>processor := Idle\<rparr>
       \<or> (\<exists>t q. spin_processor s = spin_once t (s\<lparr>spin_queue := q\<rparr>))"
    proof (cases "processor s")
      case Idle
      then show ?thesis using await_get_cases [of s] by (simp add: spin_processor_Idle)
    next
      case (Cooling k)
      with False obtain j where "k = Suc j" by (cases k) auto
      with Cooling show ?thesis by (simp add: spin_processor_sleeping)
    next
      case (Crashed x)
      then show ?thesis by (simp add: spin_processor_Crashed)
    qed
    then show ?thesis using Wake assms(2) by (auto split: if_splits)
  qed
next
  case (Eventsub p)
  then show ?thesis using assms(2) by (cases "eventsub B p (spin_queue s)") auto
next
  case (ChatCommand c)
  then show ?thesis using assms(2) by (cases "on_spin_message c (spin_queue s)") auto
next
  case Tick
  then show ?thesis using assms(2) by (cases "processor s") (auto simp: tick_def split: nat.splits)
qed (use assms(2) in \<open>auto simp: ws_spin_accept_def ws_spin_disconnect_def\<close>)

lemma only_sends_fail:
  "processor (run B es init) = Crashed e \<Longrightarrow> e = SendError"
proof -
  have "queue_ok s \<Longrightarrow> (processor s = Crashed e \<longrightarrow> e = SendError) \<Longrightarrow>
        processor (run B es s) = Crashed e \<longrightarrow> e = SendError" for s
  proof (induction es arbitrary: s)
    case (Cons ev es)
    from Cons.IH [OF queue_ok_step [OF Cons.prems(1)] only_sends_fail_step [OF Cons.prems]]
    show ?case by simp
  qed simp
  from this [of init] show "processor (run B es init) = Crashed e \<Longrightarrow> e = SendError"
    by (simp add: queue_ok_def) (simp add: init_def empty_queue_def)
qed


section \<open>Inboxes\<close>

lemma inbox_ok_step: "inbox_ok s \<Longrightarrow> inbox_ok (step B e s)"
proof -
  assume ok: "inbox_ok s"
  then have reg: "registry_ok (step B e s)" by (simp add: inbox_ok_def registry_ok_step)
  have "\<forall>ws. fresh (step B e s) \<le> ws \<longrightarrow> inbox (step B e s) ws = []"
  proof (cases e)
    case Wake
    have "inbox (spin_processor s) ws = []" if "fresh s \<le> ws" for ws
    proof -
      from ok that have "ws \<notin> clients s" and "inbox s ws = []"
        by (auto simp: inbox_ok_def registry_ok_def)
      then show ?thesis using spin_processor_effect [of s] by auto
    qed
    then show ?thesis using Wake by simp
  next
    case (Eventsub p)
    then show ?thesis using ok by (cases "eventsub B p (spin_queue s)") (auto simp: inbox_ok_def)
  next
    case (ChatCommand c)
    then show ?thesis using ok
      by (cases "on_spin_message c (spin_queue s)") (auto simp: inbox_ok_def)
  next
    case (Receive w msg)
    then show ?thesis using ok
      by (auto simp: inbox_ok_def registry_ok_def ws_defs split: sum.splits prod.splits if_splits)
  qed (use ok in \<open>auto simp: inbox_ok_def registry_ok_def ws_defs tick_def split: if_splits\<close>)
  with reg show ?thesis by (simp add: inbox_ok_def)
qed

lemma inbox_ok_run: "inbox_ok s \<Longrightarrow> inbox_ok (run B es s)"
  by (induction es arbitrary: s) (simp_all add: inbox_ok_step)

lemma inbox_ok_init: "inbox_ok init"
  by (simp add: inbox_ok_def registry_ok_init) (simp add: init_def)

text \<open>The log of spins only grows, and so does the supply of websocket objects.\<close>

lemma step_spins:
  "spins (step B e s) = spins s \<or> (\<exists>sp. spins (step B e s) = spins s @ [sp])"
proof (cases e)
  case Wake
  then show ?thesis using spin_processor_effect [of s] by auto
next
  case (Eventsub p)
  then show ?thesis by (cases "eventsub B p (spin_queue s)") auto
next
  case (ChatCommand c)
  then show ?thesis by (cases "on_spin_message c (spin_queue s)") auto
qed (auto simp: ws_spin_accept_def ws_spin_disconnect_def tick_def)

lemma step_spins_length: "length (spins s) \<le> length (spins (step B e s))"
  using step_spins [of B e s] by auto

lemma run_spins_length: "length (spins s) \<le> length (spins (run B es s))"
proof (induction es arbitrary: s)
  case (Cons e es)
  show ?case using step_spins_length [of s B e] Cons [of "step B e s"] by simp
qed simp

lemma step_fresh: "fresh s \<le> fresh (step B e s)"
proof (cases e)
  case (Eventsub p)
  then show ?thesis by (cases "eventsub B p (spin_queue s)") auto
next
  case (ChatCommand c)
  then show ?thesis by (cases "on_spin_message c (spin_queue s)") auto
qed (auto simp: ws_spin_accept_def ws_spin_disconnect_def tick_def)

lemma run_fresh: "fresh s \<le> fresh (run B es s)"
proof (induction es arbitrary: s)
  case (Cons e es)
  show ?case using step_fresh [of s B e] Cons [of "step B e s"] by simp
qed simp

text \<open>Without a spin, no connection is sent \<open>"spin"\<close>.\<close>

lemma step_quiet:
  assumes "spins (step B e s) = spins s"
  shows "count_list (inbox (step B e s) ws) ''spin'' = count_list (inbox s ws) ''spin''"
proof (cases e)
  case Wake
  then show ?thesis using assms spin_processor_effect [of s] by auto
next
  case (Eventsub p)
  then show ?thesis by (cases "eventsub B p (spin_queue s)") auto
next
  case (ChatCommand c)
  then show ?thesis by (cases "on_spin_message c (spin_queue s)") auto
next
  case (Receive w msg)
  then show ?thesis
    by (auto simp: ws_defs split: sum.splits prod.splits if_splits)
qed (auto simp: ws_spin_accept_def ws_spin_disconnect_def tick_def)

lemma run_quiet:
  assumes "spins (run B es s) = spins s"
  shows "count_list (inbox (run B es s) ws) ''spin'' = count_list (inbox s ws) ''spin''"
  using assms
proof (induction es arbitrary: s)
  case (Cons e es)
  have "length (spins (step B e s)) \<le> length (spins s)"
    using run_spins_length [of "step B e s" B es] Cons.prems by simp
  then have same: "spins (step B e s) = spins s"
    using step_spins [of B e s] by auto
  with Cons.prems have "spins (run B es (step B e s)) = spins (step B e s)" by simp
  from Cons.IH [OF this] show ?case using step_quiet [OF same] by simp
qed simp

lemma run_spins_append: "\<exists>ys. spins (run B es s) = spins s @ ys"
proof (induction es arbitrary: s)
  case (Cons e es)
  obtain ys where ys: "spins (run B es (step B e s)) = spins (step B e s) @ ys"
    using Cons [of "step B e s"] by blast
  obtain xs where "spins (step B e s) = spins s @ xs"
    using step_spins [of B e s] by auto
  with ys show ?case by simp
qed simp

section \<open>Evaluation and crashes\<close>

lemmas eval_defs = spin_processor_def await_get_def spin_once_def gather_send_text_def get_def
  task_done_def put_def on_spin_message_def ws_spin_accept_def ws_spin_receive_def
  ws_spin_finally_def ws_spin_disconnect_def set_remove_def send_text_def tick_def
  init_def empty_queue_def COOLDOWN_def mod_spin_def Let_def

lemma crashed_step:
  "processor s = Crashed x \<Longrightarrow>
     processor (step B e s) = Crashed x \<and> spins (step B e s) = spins s
     \<and> (\<exists>ys. items (spin_queue (step B e s)) = items (spin_queue s) @ ys)"
proof (cases e)
  case (Eventsub p)
  assume "processor s = Crashed x"
  then show ?thesis using Eventsub
    by (cases "eventsub B p (spin_queue s)") (auto dest: eventsub_queue_indep)
next
  case (ChatCommand c)
  assume "processor s = Crashed x"
  then show ?thesis using ChatCommand
    by (cases "on_spin_message c (spin_queue s)") (auto dest: on_spin_message_appends)
qed (auto simp: spin_processor_Crashed ws_spin_accept_def ws_spin_disconnect_def tick_def)

lemma crashed_run:
  "processor s = Crashed x \<Longrightarrow>
     processor (run B es s) = Crashed x \<and> spins (run B es s) = spins s
     \<and> (\<exists>ys. items (spin_queue (run B es s)) = items (spin_queue s) @ ys)"
proof (induction es arbitrary: s)
  case (Cons e es)
  from crashed_step [OF Cons.prems, of B e] Cons.IH [of "step B e s"] show ?case by auto
qed simp

lemma send_failure_ends_processor:
  assumes "processor s = Idle \<or> processor s = Cooling 0 \<and> 0 < unfinished (spin_queue s)"
    and "items (spin_queue s) = t # ts"
    and "clients s \<inter> broken s \<noteq> {}"
  shows "processor (spin_processor s) = Crashed SendError
     \<and> clients (spin_processor s) = clients s
     \<and> now (spin_processor s) = now s"
proof -
  from assms(1,2) obtain q where "spin_processor s = spin_once t (s\<lparr>spin_queue := q\<rparr>)"
    by (auto simp: spin_processor_Idle spin_processor_woken await_get_Cons)
  then show ?thesis using assms(3) by simp
qed

section \<open>A burst of triggers on writable connections\<close>

lemma run_append: "run B (es @ fs) s = run B fs (run B es s)"
  by (induction es arbitrary: s) simp_all

lemma run_ticks:
  "processor s = Cooling k \<Longrightarrow>
     run B (replicate k Tick) s = s\<lparr>now := now s + k, processor := Cooling 0\<rparr>"
proof (induction k arbitrary: s)
  case 0
  then show ?case by simp
next
  case (Suc k)
  have "processor (tick s) = Cooling k" using Suc.prems by (simp add: tick_def)
  from Suc.IH [OF this] show ?case using Suc.prems by (simp add: tick_def)
qed

lemma wake_takes:
  assumes "ready s" and "items (spin_queue s) = t # ts"
  shows "spin_processor s = spin_once t (s\<lparr>spin_queue := \<lparr>items = ts, unfinished = Suc (length ts)\<rparr>\<rparr>)"
proof -
  from assms(1) consider "processor s = Idle" | "processor s = Cooling 0"
    by (auto simp: ready_def)
  then show ?thesis
  proof cases
    case 1
    then have "unfinished (spin_queue s) = Suc (length ts)"
      using assms by (simp add: ready_def queue_ok_def)
    then have "(spin_queue s)\<lparr>items := ts\<rparr> = \<lparr>items = ts, unfinished = Suc (length ts)\<rparr>"
      by simp
    then show ?thesis using 1 assms(2) by (simp add: spin_processor_Idle await_get_Cons)
  next
    case 2
    then have u: "unfinished (spin_queue s) = Suc (Suc (length ts))"
      using assms by (simp add: ready_def queue_ok_def)
    then show ?thesis using 2 assms(2)
      by (simp add: spin_processor_woken await_get_Cons queue_collapse)
  qed
qed

lemma serve_one:
  fixes B :: int and s :: system
  assumes "ready s" and "items (spin_queue s) = t # ts"
  defines "s' \<equiv> run B (Wake # replicate COOLDOWN Tick) s"
  shows "ready s'" "items (spin_queue s') = ts"
    "spins s' = spins s @ [\<lparr>started = now s, token = t, snapshot = clients s\<rparr>]"
    "now s' = now s + COOLDOWN" "clients s' = clients s" "broken s' = broken s"
    "inbox s' ws = (if ws \<in> clients s then inbox s ws @ [''spin''] else inbox s ws)"
proof -
  let ?a = "spin_once t (s\<lparr>spin_queue := \<lparr>items = ts, unfinished = Suc (length ts)\<rparr>\<rparr>)"
  have healthy: "clients s \<inter> broken s = {}" using assms(1) by (simp add: ready_def)
  then have pa: "processor ?a = Cooling COOLDOWN" by simp
  have s': "s' = ?a\<lparr>now := now ?a + COOLDOWN, processor := Cooling 0\<rparr>"
    unfolding s'_def using wake_takes [OF assms(1,2)] run_ticks [OF pa, of B] by simp
  show "ready s'" using healthy by (simp add: s' ready_def queue_ok_def)
  show "items (spin_queue s') = ts" by (simp add: s')
  show "spins s' = spins s @ [\<lparr>started = now s, token = t, snapshot = clients s\<rparr>]"
    by (simp add: s')
  show "now s' = now s + COOLDOWN" by (simp add: s')
  show "clients s' = clients s" by (simp add: s')
  show "broken s' = broken s" by (simp add: s')
  show "inbox s' ws = (if ws \<in> clients s then inbox s ws @ [''spin''] else inbox s ws)"
    using healthy by (auto simp: s')
qed

lemma wake_on_empty:
  assumes "ready s" and "items (spin_queue s) = []"
  shows "processor (spin_processor s) = Idle" "unfinished (spin_queue (spin_processor s)) = 0"
    "items (spin_queue (spin_processor s)) = []" "spins (spin_processor s) = spins s"
    "inbox (spin_processor s) = inbox s"
proof -
  from assms(1) consider "processor s = Idle" | "processor s = Cooling 0"
    by (auto simp: ready_def)
  then have "spin_processor s = s\<lparr>spin_queue := \<lparr>items = [], unfinished = 0\<rparr>, processor := Idle\<rparr>"
  proof cases
    case 1
    then have "unfinished (spin_queue s) = 0" using assms by (simp add: ready_def queue_ok_def)
    then have "spin_queue s = \<lparr>items = [], unfinished = 0\<rparr>" using assms(2) by simp
    then show ?thesis using 1 by (simp add: spin_processor_Idle await_get_Nil)
  next
    case 2
    then have u: "unfinished (spin_queue s) = Suc 0"
      using assms by (simp add: ready_def queue_ok_def)
    then have "(spin_queue s)\<lparr>unfinished := unfinished (spin_queue s) - 1\<rparr>
        = \<lparr>items = [], unfinished = 0\<rparr>" using assms(2) by simp
    then show ?thesis using 2 u assms(2) by (simp add: spin_processor_woken await_get_Nil)
  qed
  then show "processor (spin_processor s) = Idle" "unfinished (spin_queue (spin_processor s)) = 0"
    "items (spin_queue (spin_processor s)) = []" "spins (spin_processor s) = spins s"
    "inbox (spin_processor s) = inbox s"
    by simp_all
qed

lemma burst_served:
  fixes B :: int and s :: system
  assumes "ready s" and "items (spin_queue s) = ts"
  defines "s' \<equiv> run B (serve (length ts) @ [Wake]) s"
  shows "processor s' = Idle \<and> items (spin_queue s') = [] \<and> unfinished (spin_queue s') = 0
     \<and> spins s' = spins s @ expected_spins (now s) (clients s) ts
     \<and> (\<forall>ws. inbox s' ws =
           inbox s ws @ (if ws \<in> clients s then replicate (length ts) ''spin'' else []))"
  unfolding s'_def using assms(1,2)
proof (induction ts arbitrary: s)
  case Nil
  then show ?case using wake_on_empty [OF Nil] by (simp add: serve_def)
next
  case (Cons t ts)
  let ?m = "run B (Wake # replicate COOLDOWN Tick) s"
  note one = serve_one [OF Cons.prems, of B]
  have "serve (length (t # ts)) @ [Wake]
      = (Wake # replicate COOLDOWN Tick) @ (serve (length ts) @ [Wake])"
    by (simp add: serve_def)
  then have split:
    "run B (serve (length (t # ts)) @ [Wake]) s = run B (serve (length ts) @ [Wake]) ?m"
    by (simp only: run_append)
  from Cons.IH [OF one(1,2)] show ?case
    unfolding split using one(3-7) by (simp add: replicate_append_same)
qed

text \<open>
  With nobody registered a trigger is still taken and the cooldown still entered, and
  nothing is sent.
\<close>

lemma empty_registry_spin:
  assumes "ready s" and "items (spin_queue s) = t # ts" and "clients s = {}"
  shows "processor (spin_processor s) = Cooling COOLDOWN \<and> inbox (spin_processor s) = inbox s
     \<and> spins (spin_processor s) = spins s @ [\<lparr>started = now s, token = t, snapshot = {}\<rparr>]"
  using assms(3) by (simp add: wake_takes [OF assms(1,2)] fun_eq_iff)

section \<open>The registry snapshot\<close>

text \<open>
  C7. When the processor takes a trigger, the sends go to the registry as it is at that
  moment, and only its members are sent \<open>"spin"\<close>. A connection that joins later, while
  no further trigger is taken, is not in that snapshot and is sent no \<open>"spin"\<close>; the
  next trigger's snapshot is the registry of its own moment, so the newcomer, if still
  registered and writable, is sent \<open>"spin"\<close> then.
\<close>

theorem joiner_served_from_next_spin:
  assumes reach: "s = run B es0 init"
    and spin1: "spins (spin_processor s) = spins s @ [sp]"
    and mid: "s1 = run B es1 (spin_processor s)"
    and join: "s2 = run B es2 (step B Connect s1)"
    and quiet: "spins s2 = spins (spin_processor s)"
    and spin2: "spins (spin_processor s2) = spins s2 @ [sp']"
  shows "snapshot sp = clients s
     \<and> (\<forall>ws. inbox (spin_processor s) ws =
            (if ws \<in> snapshot sp \<and> ws \<notin> broken s then inbox s ws @ [''spin''] else inbox s ws))
     \<and> fresh s1 \<notin> snapshot sp
     \<and> count_list (inbox s2 (fresh s1)) ''spin'' = 0
     \<and> snapshot sp' = clients s2
     \<and> (fresh s1 \<in> clients s2 \<and> fresh s1 \<notin> broken s2 \<longrightarrow>
           inbox (spin_processor s2) (fresh s1) = inbox s2 (fresh s1) @ [''spin''])"
proof -
  have ok: "inbox_ok s" unfolding reach by (rule inbox_ok_run [OF inbox_ok_init])
  from spin1 spin_processor_effect [of s]
  have sp: "sp = \<lparr>started = now s, token = token sp, snapshot = clients s\<rparr>"
    and in1: "inbox (spin_processor s) =
       (\<lambda>ws. if ws \<in> clients s \<and> ws \<notin> broken s then inbox s ws @ [''spin''] else inbox s ws)"
    by auto
  from sp have snap: "snapshot sp = clients s"
    by (metis spin.select_convs(3))
  have "fresh s \<le> fresh s1" unfolding mid using run_fresh [of "spin_processor s" B es1] by simp
  then have notin: "fresh s1 \<notin> clients s"
    using ok by (auto simp: inbox_ok_def registry_ok_def)
  have ok1: "inbox_ok s1" unfolding mid
    using ok inbox_ok_step [of s B Wake] by (simp add: inbox_ok_run)
  then have empty1: "inbox s1 (fresh s1) = []" by (simp add: inbox_ok_def)
  let ?c = "step B Connect s1"
  obtain ys where ys: "spins s1 = spins (spin_processor s) @ ys"
    unfolding mid using run_spins_append by blast
  have c: "spins ?c = spins s1" by (simp add: ws_spin_accept_def)
  obtain zs where zs: "spins s2 = spins ?c @ zs"
    unfolding join using run_spins_append by blast
  from quiet ys zs c have "zs = []" by simp
  with zs have "spins (run B es2 ?c) = spins ?c" by (simp add: join)
  from run_quiet [OF this, of "fresh s1"]
  have silent: "count_list (inbox s2 (fresh s1)) ''spin'' = 0"
    using empty1 by (simp add: join ws_spin_accept_def)
  from spin2 spin_processor_effect [of s2]
  have sp': "sp' = \<lparr>started = now s2, token = token sp', snapshot = clients s2\<rparr>"
    and in2: "inbox (spin_processor s2) =
       (\<lambda>ws. if ws \<in> clients s2 \<and> ws \<notin> broken s2 then inbox s2 ws @ [''spin''] else inbox s2 ws)"
    by auto
  from sp' have snap': "snapshot sp' = clients s2"
    by (metis spin.select_convs(3))
  show ?thesis
    using snap in1 notin silent snap' in2 by simp
qed

theorem joiner_served_from_next_spin_witness:
  "spins (spin_processor before_spin)
     = spins before_spin @ [\<lparr>started = 0, token = ''spin'', snapshot = {0}\<rparr>]
   \<and> spins before_next = spins (spin_processor before_spin)
   \<and> spins (spin_processor before_next)
     = spins before_next @ [\<lparr>started = 9, token = ''spin'', snapshot = {0, 1}\<rparr>]
   \<and> fresh (run 555 [Tick, Tick] (spin_processor before_spin)) = 1
   \<and> inbox (spin_processor before_spin) 0 = [''spin'']
   \<and> count_list (inbox before_next 1) ''spin'' = 0
   \<and> inbox (spin_processor before_next) 1 = [''spin'']"
proof -
  let ?sp = "\<lparr>started = 0, token = ''spin'', snapshot = {0}\<rparr>"
  let ?sp' = "\<lparr>started = 9, token = ''spin'', snapshot = {0, 1}\<rparr>"
  have h1: "spins (spin_processor before_spin) = spins before_spin @ [?sp]"
    by (simp add: before_spin_def eval_defs)
  have h2: "spins before_next = spins (spin_processor before_spin)"
    by (simp add: before_next_def before_spin_def eval_defs)
  have h3: "spins (spin_processor before_next) = spins before_next @ [?sp']"
    by (auto simp add: before_next_def before_spin_def eval_defs)
  have f: "fresh (run 555 [Tick, Tick] (spin_processor before_spin)) = 1"
    by (simp add: before_spin_def eval_defs)
  have c: "1 \<in> clients before_next" "1 \<notin> broken before_next" "inbox before_next 1 = []"
    "inbox before_spin 0 = []" "0 \<notin> broken before_spin"
    by (simp_all add: before_next_def before_spin_def eval_defs)
  note t = joiner_served_from_next_spin [OF before_spin_def h1 refl before_next_def h2 h3]
  show ?thesis using h1 h2 h3 f c t by simp
qed

section \<open>A send that fails\<close>

text \<open>
  C2, at a failing input. Of two registered connections the first no longer takes writes
  and two triggers wait. The resumed processor sends to both; the second connection is
  delivered its \<open>"spin"\<close>, the exception of the first ends the processor: no time has
  passed, the stale connection is still registered, the second trigger is still on the
  queue, and the processor stays terminated whatever happens next.
\<close>

theorem stale_connection_kills_processor:
  "processor (run 555 stale_run init) = Crashed SendError
   \<and> now (run 555 stale_run init) = 0
   \<and> 0 \<in> clients (run 555 stale_run init)
   \<and> inbox (run 555 stale_run init) 1 = [''spin'']
   \<and> items (spin_queue (run 555 stale_run init)) = [''spin'']
   \<and> processor (run 555 es (run 555 stale_run init)) = Crashed SendError"
proof -
  have p: "processor (run 555 stale_run init) = Crashed SendError"
    by (simp add: stale_run_def eval_defs)
  have n: "now (run 555 stale_run init) = 0"
    by (simp add: stale_run_def eval_defs)
  have c: "0 \<in> clients (run 555 stale_run init)"
    by (simp add: stale_run_def eval_defs)
  have i: "inbox (run 555 stale_run init) 1 = [''spin'']"
    by (simp add: stale_run_def eval_defs)
  have q: "items (spin_queue (run 555 stale_run init)) = [''spin'']"
    by (simp add: stale_run_def eval_defs)
  show ?thesis using p n c i q crashed_run [OF p, of 555 es] by simp
qed

text \<open>
  C1, at the same failing input. Two triggers were submitted; one spin is all that ever
  happens, whatever follows.
\<close>

theorem two_triggers_one_spin:
  "concat (map (submitted 555) stale_run) = [''spin'', ''spin'']
   \<and> length (spins (run 555 es (run 555 stale_run init))) = 1"
proof -
  have s: "concat (map (submitted 555) stale_run) = [''spin'', ''spin'']"
    by (simp add: stale_run_def eval_defs)
  have p: "processor (run 555 stale_run init) = Crashed SendError"
    by (simp add: stale_run_def eval_defs)
  have l: "length (spins (run 555 stale_run init)) = 1"
    by (simp add: stale_run_def eval_defs)
  show ?thesis using s l crashed_run [OF p, of 555 es] by simp
qed

text \<open>
  C6, at a failing input. A single trigger is processed while the one registered
  connection does not take writes: the processor ends in an exception instead of
  entering the cooldown, which it enters when the connection is writable.
\<close>

theorem trigger_without_cooldown:
  "processor (run 555 [Connect, Break 0, Eventsub (cheer (JInt 555)), Wake] init)
     = Crashed SendError
   \<and> processor (run 555 [Connect, Eventsub (cheer (JInt 555)), Wake] init) = Cooling 9"
  by (simp add: eval_defs cheer_def eventsub_def dict_get_def dict_get_default_def)

end
